theory Spec2Isabelle
  imports Main
begin

section \<open>cu.music.cuesheet: cdrdao table of contents to cue sheet\<close>

text \<open>
  A shallow embedding of \<^verbatim>\<open>src/cu/music/cuesheet.py\<close>. Python strings are
  \<open>string\<close>s whose characters are code points below 256, Python integers are \<open>int\<close>,
  and every exception the source can raise is a value of type \<open>error\<close>. The source
  raises bare \<^verbatim>\<open>AssertionError\<close>s; the embedding gives each raising site a
  constructor of its own so that the sites stay apart:
  \<^item> \<open>UnbalancedBraces\<close>: the two assertions of \<^verbatim>\<open>read_cdrdao_toc\<close> (lines 51 and 57);
  \<^item> \<open>AmbiguousField key\<close>: \<^verbatim>\<open>assert len(matches) < 2\<close> (line 90);
  \<^item> \<open>MissingField key\<close>: \<^verbatim>\<open>assert missing_ok\<close> (line 93);
  \<^item> \<open>UnknownTrackType\<close>: \<^verbatim>\<open>assert False\<close> (line 199);
  \<^item> \<open>MalformedTimecode\<close>: the \<^verbatim>\<open>ValueError\<close>s of \<^verbatim>\<open>to_fracs\<close> (unpacking, \<^verbatim>\<open>int\<close>);
  \<^item> \<open>AssertionError\<close>: the assertions of \<^verbatim>\<open>undoublequote\<close> and \<^verbatim>\<open>track_type\<close>;
  \<^item> \<open>IndexError\<close>, \<open>ValueError\<close>, \<open>TypeError\<close>: raised by indexing and unpacking.
\<close>

datatype error =
    UnbalancedBraces
  | AmbiguousField string
  | MissingField string
  | UnknownTrackType
  | MalformedTimecode
  | AssertionError
  | IndexError
  | ValueError
  | TypeError

definition ebind :: "error + 'a \<Rightarrow> ('a \<Rightarrow> error + 'b) \<Rightarrow> error + 'b" where
  "ebind m f = (case m of Inl e \<Rightarrow> Inl e | Inr v \<Rightarrow> f v)"

subsection \<open>The string operations of Python the source uses\<close>

abbreviation DQ :: char where "DQ \<equiv> CHR 0x22"
abbreviation NL :: char where "NL \<equiv> CHR 0x0A"

text \<open>\<^verbatim>\<open>str.isspace\<close> on one character, for code points below 256.\<close>

definition py_isspace :: "char \<Rightarrow> bool" where
  "py_isspace c = (of_char c \<in> {9::nat, 10, 11, 12, 13, 28, 29, 30, 31, 32, 133, 160})"

definition lstrip :: "string \<Rightarrow> string" where
  "lstrip s = dropWhile py_isspace s"

definition rstrip :: "string \<Rightarrow> string" where
  "rstrip s = rev (dropWhile py_isspace (rev s))"

definition strip :: "string \<Rightarrow> string" where
  "strip s = lstrip (rstrip s)"

text \<open>\<^verbatim>\<open>line.rstrip('\n')\<close>\<close>

definition rstrip_nl :: "string \<Rightarrow> string" where
  "rstrip_nl s = rev (dropWhile (\<lambda>c. c = NL) (rev s))"

definition startswith :: "string \<Rightarrow> string \<Rightarrow> bool" where
  "startswith s p = (take (length p) s = p)"

definition endswith :: "string \<Rightarrow> string \<Rightarrow> bool" where
  "endswith s p = (length p \<le> length s \<and> drop (length s - length p) s = p)"

text \<open>\<^verbatim>\<open>sep.join(xs)\<close>\<close>

fun join :: "string \<Rightarrow> string list \<Rightarrow> string" where
  "join sep [] = []"
| "join sep [x] = x"
| "join sep (x # y # r) = x @ sep @ join sep (y # r)"

text \<open>\<^verbatim>\<open>s.split()\<close>: the maximal runs of characters that are not whitespace.\<close>

fun split_ws_aux :: "string \<Rightarrow> string \<Rightarrow> string list" where
  "split_ws_aux cur [] = (if cur = [] then [] else [cur])"
| "split_ws_aux cur (c # cs) =
     (if py_isspace c
      then (if cur = [] then split_ws_aux [] cs else cur # split_ws_aux [] cs)
      else split_ws_aux (cur @ [c]) cs)"

definition py_split :: "string \<Rightarrow> string list" where
  "py_split s = split_ws_aux [] s"

text \<open>\<^verbatim>\<open>s.split(sep)\<close> for a separator of one character.\<close>

fun split_on_aux :: "char \<Rightarrow> string \<Rightarrow> string \<Rightarrow> string list" where
  "split_on_aux sep cur [] = [cur]"
| "split_on_aux sep cur (c # cs) =
     (if c = sep then cur # split_on_aux sep [] cs else split_on_aux sep (cur @ [c]) cs)"

definition split_on :: "char \<Rightarrow> string \<Rightarrow> string list" where
  "split_on sep s = split_on_aux sep [] s"

subsection \<open>Decimal integers: \<^verbatim>\<open>int(s)\<close> and the format \<^verbatim>\<open>02d\<close>\<close>

definition is_digit :: "char \<Rightarrow> bool" where
  "is_digit c = (c \<in> set ''0123456789'')"

definition digit_val :: "char \<Rightarrow> nat" where
  "digit_val c = of_char c - 48"

definition digit_char :: "nat \<Rightarrow> char" where
  "digit_char d = ''0123456789'' ! d"

fun str_nat :: "nat \<Rightarrow> string" where
  "str_nat n = (if n < 10 then [digit_char n] else str_nat (n div 10) @ [digit_char (n mod 10)])"

text \<open>
  \<^verbatim>\<open>f'{n:02d}'\<close> and \<^verbatim>\<open>'%02d' % n\<close>: the decimal digits, filled with zeros on the
  left to a width of two; a negative number carries its sign, which counts in the width.
\<close>

definition fmt02d :: "int \<Rightarrow> string" where
  "fmt02d n = (if n < 0 then CHR ''-'' # str_nat (nat (- n))
               else replicate (2 - length (str_nat (nat n))) CHR ''0'' @ str_nat (nat n))"

text \<open>
  The digits \<^verbatim>\<open>int\<close> accepts in base ten: one digit or more, with single underscores
  between digits.
\<close>

fun int_digits :: "string \<Rightarrow> bool" where
  "int_digits [] = False"
| "int_digits [c] = is_digit c"
| "int_digits (c # d # r) =
     (is_digit c \<and> (if d = CHR ''_'' then int_digits r else int_digits (d # r)))"

definition digits_value :: "string \<Rightarrow> nat" where
  "digits_value s = foldl (\<lambda>a c. 10 * a + digit_val c) 0 s"

text \<open>
  \<^verbatim>\<open>int(s)\<close>: whitespace around the number is dropped, a sign may come first, the
  rest must be digits. Anything else raises \<^verbatim>\<open>ValueError\<close>. (The interpreter's
  configurable limit on the number of digits is not modelled.)
\<close>

definition py_int :: "string \<Rightarrow> error + int" where
  "py_int s =
     (let t = strip s;
          neg = (t \<noteq> [] \<and> hd t = CHR ''-'');
          body = (if t \<noteq> [] \<and> (hd t = CHR ''-'' \<or> hd t = CHR ''+'') then tl t else t)
      in if int_digits body
         then Inr ((if neg then - 1 else 1) * int (digits_value (filter (\<lambda>c. c \<noteq> CHR ''_'') body)))
         else Inl ValueError)"

subsection \<open>Line folding: \<^verbatim>\<open>net_braces\<close>, \<^verbatim>\<open>read_cdrdao_toc\<close>\<close>

definition net_braces :: "string \<Rightarrow> int" where
  "net_braces s = int (count_list s CHR ''{'') - int (count_list s CHR ''}'')"

text \<open>A line the loop skips: a comment or a blank line (line 42).\<close>

definition skipped :: "string \<Rightarrow> bool" where
  "skipped ln = (startswith (lstrip ln) ''//'' \<or> strip ln = [])"

text \<open>
  The loop of \<^verbatim>\<open>read_cdrdao_toc\<close> over the lines the file yields, with its three
  variables \<^verbatim>\<open>parts\<close>, \<^verbatim>\<open>brace_count\<close> and \<^verbatim>\<open>joined_parts\<close>; at the
  end of the input, \<^verbatim>\<open>assert not parts\<close>.
\<close>

fun read_loop :: "string list \<Rightarrow> string list \<Rightarrow> int \<Rightarrow> string list \<Rightarrow> error + string list" where
  "read_loop [] parts brace_count joined_parts =
     (if parts \<noteq> [] then Inl UnbalancedBraces else Inr joined_parts)"
| "read_loop (l # ls) parts brace_count joined_parts =
     (let ln = rstrip_nl l in
      if skipped ln then read_loop ls parts brace_count joined_parts
      else
        let parts' = parts @ [ln];
            brace_count' = brace_count + net_braces ln
        in if \<not> brace_count' \<ge> 0 then Inl UnbalancedBraces
           else if brace_count' = 0
                then read_loop ls [] brace_count' (joined_parts @ [join [NL] parts'])
                else read_loop ls parts' brace_count' joined_parts)"

text \<open>The argument is the list of lines that iterating over the open file yields.\<close>

definition read_cdrdao_toc :: "string list \<Rightarrow> error + string list" where
  "read_cdrdao_toc file_lines =
     ebind (read_loop file_lines [] 0 []) (\<lambda>joined_parts. Inr (map lstrip joined_parts))"

subsection \<open>Track splitting: \<^verbatim>\<open>split_by_track\<close>\<close>

fun split_loop :: "string list \<Rightarrow> string list \<Rightarrow> string list list \<Rightarrow> string list list" where
  "split_loop [] grp tracks = (if grp \<noteq> [] then tracks @ [grp] else tracks)"
| "split_loop (p # ps) grp tracks =
     (if startswith p ''TRACK ''
      then (if grp \<noteq> [] then split_loop ps [p] (tracks @ [grp])
            else split_loop ps (grp @ [p]) tracks)
      else split_loop ps (grp @ [p]) tracks)"

definition split_by_track :: "string list \<Rightarrow> string list list" where
  "split_by_track parts = split_loop parts [] []"

subsection \<open>Field extraction\<close>

definition undoublequote :: "string \<Rightarrow> error + string" where
  "undoublequote s =
     (if \<not> startswith s [DQ] then Inl AssertionError
      else if \<not> endswith s [DQ] then Inl AssertionError
      else let s' = butlast (tl s)
           in if DQ \<in> set s' then Inl AssertionError else Inr s')"

text \<open>\<^verbatim>\<open>x[0]\<close> on a list of tokens.\<close>

definition first_word :: "string list \<Rightarrow> error + string" where
  "first_word x = (case x of [] \<Rightarrow> Inl IndexError | w # _ \<Rightarrow> Inr w)"

text \<open>
  \<^verbatim>\<open>only_matching_word\<close>. The comprehension reads \<^verbatim>\<open>x[0]\<close> of every record, so a
  record without tokens raises \<^verbatim>\<open>IndexError\<close>. \<^verbatim>\<open>None\<close> is \<open>None\<close>; the
  \<^verbatim>\<open>print\<close> before the assertion is not modelled.
\<close>

definition only_matching_word ::
  "string list list \<Rightarrow> string \<Rightarrow> (string list \<Rightarrow> error + 'a) \<Rightarrow> bool \<Rightarrow> error + 'a option" where
  "only_matching_word data key process missing_ok =
     (if [] \<in> set data then Inl IndexError
      else let matches = map tl (filter (\<lambda>x. hd x = key) data)
           in if \<not> length matches < 2 then Inl (AmbiguousField key)
              else (case matches of
                      m # _ \<Rightarrow> ebind (process m) (\<lambda>r. Inr (Some r))
                    | [] \<Rightarrow> if missing_ok then Inr None else Inl (MissingField key)))"

definition get_catalog :: "string list list \<Rightarrow> error + string option" where
  "get_catalog data =
     only_matching_word data ''CATALOG'' (\<lambda>x. ebind (first_word x) undoublequote) True"

definition get_track_file :: "string list list \<Rightarrow> error + string list option" where
  "get_track_file data =
     only_matching_word data ''FILE'' (\<lambda>x. Inr (take 2 (drop 1 x))) False"

definition get_start :: "string list list \<Rightarrow> error + string option" where
  "get_start data = only_matching_word data ''START'' first_word True"

definition get_silence :: "string list list \<Rightarrow> error + string option" where
  "get_silence data = only_matching_word data ''SILENCE'' first_word True"

definition get_isrc :: "string list list \<Rightarrow> error + string option" where
  "get_isrc data =
     only_matching_word data ''ISRC'' (\<lambda>x. ebind (first_word x) undoublequote) True"

definition has_copy :: "string list list \<Rightarrow> bool" where
  "has_copy data = list_ex (\<lambda>x. x = [''COPY'']) data"

definition track_type :: "string list list \<Rightarrow> error + string" where
  "track_type data =
     (case data of
        [] \<Rightarrow> Inl IndexError
      | words # _ \<Rightarrow>
          (case words of
             [] \<Rightarrow> Inl IndexError
           | w0 # rest \<Rightarrow>
               if w0 \<noteq> ''TRACK'' then Inl AssertionError
               else (case rest of [] \<Rightarrow> Inl IndexError | w1 # _ \<Rightarrow> Inr w1)))"

subsection \<open>Timecode arithmetic: \<^verbatim>\<open>to_fracs\<close>, \<^verbatim>\<open>offset_sum\<close>\<close>

definition to_fracs :: "string \<Rightarrow> error + int" where
  "to_fracs x =
     (case split_on CHR '':'' x of
        [minutes, seconds, fracs] \<Rightarrow>
          (case py_int minutes of Inl e \<Rightarrow> Inl MalformedTimecode | Inr m \<Rightarrow>
          (case py_int seconds of Inl e \<Rightarrow> Inl MalformedTimecode | Inr s \<Rightarrow>
          (case py_int fracs of Inl e \<Rightarrow> Inl MalformedTimecode | Inr f \<Rightarrow>
             Inr (m * 60 * 75 + s * 75 + f))))
      | _ \<Rightarrow> Inl MalformedTimecode)"

text \<open>Lines 137 to 140 of \<^verbatim>\<open>offset_sum\<close>: the two \<^verbatim>\<open>divmod\<close>s and the f-string.\<close>

definition format_fracs :: "int \<Rightarrow> string" where
  "format_fracs n =
     (let seconds = n div 75; fracs = n mod 75;
          minutes = seconds div 60; seconds' = seconds mod 60
      in fmt02d minutes @ '':'' @ fmt02d seconds' @ '':'' @ fmt02d fracs)"

definition offset_sum :: "string \<Rightarrow> string \<Rightarrow> error + string" where
  "offset_sum x y =
     ebind (to_fracs x) (\<lambda>a. ebind (to_fracs y) (\<lambda>b. Inr (format_fracs (a + b))))"

subsection \<open>The cue emitter: \<^verbatim>\<open>make_cuesheet\<close>\<close>

text \<open>The inner function \<^verbatim>\<open>line\<close>, returning the line it appends to \<^verbatim>\<open>cuesheet\<close>.\<close>

definition line :: "nat \<Rightarrow> string list \<Rightarrow> string" where
  "line indent parts = join '' '' (replicate indent '' '' @ parts)"

text \<open>
  The two \<^verbatim>\<open>INDEX\<close> branches (lines 180 to 184); \<^verbatim>\<open>if start:\<close> is false for
  \<^verbatim>\<open>None\<close> and for the empty string.
\<close>

definition index_lines :: "string \<Rightarrow> string option \<Rightarrow> error + string list" where
  "index_lines track_start start =
     (case start of
        None \<Rightarrow> Inr [line 2 [''INDEX'', ''01'', track_start]]
      | Some st \<Rightarrow>
          if st = [] then Inr [line 2 [''INDEX'', ''01'', track_start]]
          else ebind (offset_sum track_start st) (\<lambda>t1.
                 Inr [line 2 [''INDEX'', ''00'', track_start], line 2 [''INDEX'', ''01'', t1]]))"

text \<open>
  The body of the loop for an audio group (lines 165 to 192): the lines it appends and
  the new \<^verbatim>\<open>silence_offset\<close>.
\<close>

definition emit_audio :: "nat \<Rightarrow> string list list \<Rightarrow> string \<Rightarrow> error + (string list \<times> string)" where
  "emit_audio track data silence_offset =
     (let l1 = [line 1 [''TRACK'', fmt02d (int track), ''AUDIO'']];
          l2 = (if has_copy data then [line 2 [''FLAGS'', ''DCP'']] else [])
      in ebind (get_isrc data) (\<lambda>isrc.
         let l3 = (case isrc of None \<Rightarrow> [] | Some i \<Rightarrow> [line 2 [''ISRC'', i]])
         in ebind (get_track_file data) (\<lambda>tf.
            case tf of
              None \<Rightarrow> Inl TypeError
            | Some [track_start0, len] \<Rightarrow>
                ebind (offset_sum (if track_start0 = ''0'' then ''00:00:00'' else track_start0)
                         silence_offset) (\<lambda>track_start.
                ebind (get_start data) (\<lambda>start.
                ebind (index_lines track_start start) (\<lambda>l4.
                ebind (get_silence data) (\<lambda>silence.
                  case silence of
                    None \<Rightarrow> Inr (l1 @ l2 @ l3 @ l4, silence_offset)
                  | Some s \<Rightarrow>
                      ebind (offset_sum silence_offset s) (\<lambda>silence_offset'.
                        Inr (l1 @ l2 @ l3 @ l4, silence_offset'))))))
            | Some _ \<Rightarrow> Inl ValueError)))"

text \<open>The body of the loop (lines 156 to 199) for the group at position \<open>track\<close>.\<close>

definition emit_group ::
  "bool \<Rightarrow> nat \<Rightarrow> string list list \<Rightarrow> string \<Rightarrow> error + (string list \<times> string)" where
  "emit_group track_1_is_audio track data silence_offset =
     (if track = 0
      then
        let data_file = (if track_1_is_audio then [DQ] @ ''data.wav'' @ [DQ] else [DQ] @ ''data_1'' @ [DQ])
        in ebind (get_catalog data) (\<lambda>catalog.
             Inr (line 0 [''FILE'', data_file, ''BINARY'']
                    # (case catalog of None \<Rightarrow> [] | Some c \<Rightarrow> [line 0 [''CATALOG'', c]]),
                  silence_offset))
      else
        ebind (track_type data) (\<lambda>ty.
          if ty = ''AUDIO'' then emit_audio track data silence_offset
          else if ty = ''MODE1''
          then Inr ([line 1 [''TRACK'', fmt02d (int track), ''MODE1/2048''],
                     line 2 [''INDEX'', ''01'', ''00:00:00'']], silence_offset)
          else Inl UnknownTrackType))"

text \<open>The loop \<^verbatim>\<open>for track, data in enumerate(tracks)\<close>, from position \<open>track\<close> on.\<close>

fun emit_groups ::
  "bool \<Rightarrow> nat \<Rightarrow> string list list list \<Rightarrow> string \<Rightarrow> error + string list" where
  "emit_groups a track [] silence_offset = Inr []"
| "emit_groups a track (data # rest) silence_offset =
     ebind (emit_group a track data silence_offset) (\<lambda>(ls, silence_offset').
     ebind (emit_groups a (Suc track) rest silence_offset') (\<lambda>ls'. Inr (ls @ ls')))"

text \<open>The list \<^verbatim>\<open>cuesheet\<close> when \<^verbatim>\<open>make_cuesheet\<close> returns.\<close>

definition cuesheet_lines :: "string list \<Rightarrow> error + string list" where
  "cuesheet_lines parts =
     (let tracks = map (map py_split) (split_by_track parts)
      in if \<not> 1 < length tracks then Inl IndexError
         else ebind (track_type (tracks ! 1)) (\<lambda>ty.
              ebind (emit_groups (ty = ''AUDIO'') 0 tracks ''00:00:00'') (\<lambda>ls.
                Inr (ls @ [line 0 []]))))"

definition make_cuesheet :: "string list \<Rightarrow> error + string" where
  "make_cuesheet parts = ebind (cuesheet_lines parts) (\<lambda>cuesheet. Inr (join [NL] cuesheet))"

definition toc_to_cuesheet :: "string list \<Rightarrow> error + string" where
  "toc_to_cuesheet file_lines = ebind (read_cdrdao_toc file_lines) make_cuesheet"

subsection \<open>Notions used to state the properties\<close>

text \<open>
  The lines of the input that the loop of \<^verbatim>\<open>read_cdrdao_toc\<close> does not skip, and
  the value of the brace counter after a sequence of such lines.
\<close>

definition kept :: "string list \<Rightarrow> string list" where
  "kept file_lines = filter (\<lambda>ln. \<not> skipped ln) (map rstrip_nl file_lines)"

definition balance :: "string list \<Rightarrow> int" where
  "balance ks = sum_list (map net_braces ks)"

text \<open>
  Started at \<open>c\<close>, the counter goes below zero after some prefix of the lines, or is not
  zero after all of them.
\<close>

definition unbalanced :: "int \<Rightarrow> string list \<Rightarrow> bool" where
  "unbalanced c ks = ((\<exists>n\<le>length ks. c + balance (take n ks) < 0) \<or> c + balance ks \<noteq> 0)"

text \<open>
  The text \<^verbatim>\<open>MM:SS:FF\<close> of a number of minutes, seconds and frames, each field
  written as the formatter writes it: two digits, or more when the number needs them.
\<close>

definition timecode :: "int \<Rightarrow> int \<Rightarrow> int \<Rightarrow> string" where
  "timecode m s f = fmt02d m @ '':'' @ fmt02d s @ '':'' @ fmt02d f"

text \<open>The number of spaces a line begins with, and the word that follows them.\<close>

definition indent_of :: "string \<Rightarrow> nat" where
  "indent_of l = length (takeWhile (\<lambda>c. c = CHR '' '') l)"

definition directive :: "string \<Rightarrow> string" where
  "directive l = takeWhile (\<lambda>c. c \<noteq> CHR '' '') (dropWhile (\<lambda>c. c = CHR '' '') l)"

definition is_index :: "string \<Rightarrow> bool" where
  "is_index l = (directive l = ''INDEX'')"

text \<open>A string with a character that is not whitespace.\<close>

definition has_word :: "string \<Rightarrow> bool" where
  "has_word s = (\<exists>c\<in>set s. \<not> py_isspace c)"

text \<open>
  A line of a cue sheet with its directive at the indentation the emitter gives it; the
  empty line is the one appended last.
\<close>

definition well_indented :: "string \<Rightarrow> bool" where
  "well_indented l = (l = [] \<or> (directive l, indent_of l) \<in>
     {(''FILE'', 0), (''CATALOG'', 0), (''TRACK'', 2), (''FLAGS'', 4), (''ISRC'', 4), (''INDEX'', 4)})"

section \<open>Properties\<close>

subsection \<open>Basic facts\<close>

declare str_nat.simps [simp del]

lemma ebind_Inl [simp]: "ebind (Inl e) f = Inl e"
  by (simp add: ebind_def)

lemma ebind_Inr [simp]: "ebind (Inr v) f = f v"
  by (simp add: ebind_def)

lemma ebind_eq_Inr: "(ebind m f = Inr r) = (\<exists>v. m = Inr v \<and> f v = Inr r)"
  by (cases m) simp_all

lemma line_0 [simp]: "line 0 ws = join '' '' ws"
  by (simp add: line_def)

lemma line_1 [simp]: "line (Suc 0) (w # ws) = ''  '' @ join '' '' (w # ws)"
  by (simp add: line_def)

lemma line_2 [simp]: "line 2 (w # ws) = ''    '' @ join '' '' (w # ws)"
  by (simp add: line_def numeral_2_eq_2)

subsection \<open>Track splitting\<close>

lemma split_loop_nonempty:
  "[] \<notin> set tracks \<Longrightarrow> [] \<notin> set (split_loop parts grp tracks)"
  by (induction parts arbitrary: grp tracks) auto

lemma split_loop_concat:
  "concat (split_loop parts grp tracks) = concat tracks @ grp @ parts"
  by (induction parts arbitrary: grp tracks) auto

lemma split_loop_tracks_prefix:
  "\<exists>more. split_loop parts grp tracks = tracks @ more"
  by (induction parts arbitrary: grp tracks) (auto, (metis append.assoc)+)

lemma split_loop_hd:
  "grp \<noteq> [] \<Longrightarrow>
   \<exists>more. split_loop parts grp [] = (grp @ takeWhile (\<lambda>p. \<not> startswith p ''TRACK '') parts) # more"
proof (induction parts arbitrary: grp)
  case Nil
  then show ?case by simp
next
  case (Cons p ps)
  show ?case
  proof (cases "startswith p ''TRACK ''")
    case True
    with Cons.prems split_loop_tracks_prefix [of ps "[p]" "[grp]"] show ?thesis by auto
  next
    case False
    with Cons.IH [of "grp @ [p]"] show ?thesis by auto
  qed
qed

lemma split_loop_no_track:
  "\<forall>p\<in>set parts. \<not> startswith p ''TRACK '' \<Longrightarrow>
   split_loop parts grp tracks = (if grp @ parts \<noteq> [] then tracks @ [grp @ parts] else tracks)"
  by (induction parts arbitrary: grp) auto

text \<open>
  C2, as the code has it. The splitter never produces an empty group, and its groups put
  end to end are the input. The first group is the records before the first
  \<^verbatim>\<open>TRACK\<close> record only when there is such a record; when the very first record is a
  \<^verbatim>\<open>TRACK\<close> record there is no header group, and group 0 is that record with the
  records up to the next \<^verbatim>\<open>TRACK\<close> record.
\<close>

theorem split_by_track_first_group:
  "[] \<notin> set (split_by_track parts)
   \<and> concat (split_by_track parts) = parts
   \<and> (parts \<noteq> [] \<longrightarrow> split_by_track parts \<noteq> [] \<and>
        hd (split_by_track parts) =
          (if startswith (hd parts) ''TRACK ''
           then hd parts # takeWhile (\<lambda>p. \<not> startswith p ''TRACK '') (tl parts)
           else takeWhile (\<lambda>p. \<not> startswith p ''TRACK '') parts))"
proof -
  have a: "[] \<notin> set (split_by_track parts)"
    by (simp add: split_by_track_def split_loop_nonempty)
  have b: "concat (split_by_track parts) = parts"
    by (simp add: split_by_track_def split_loop_concat)
  have c: "split_by_track parts \<noteq> [] \<and>
        hd (split_by_track parts) =
          (if startswith (hd parts) ''TRACK ''
           then hd parts # takeWhile (\<lambda>p. \<not> startswith p ''TRACK '') (tl parts)
           else takeWhile (\<lambda>p. \<not> startswith p ''TRACK '') parts)" if "parts \<noteq> []"
  proof -
    from that obtain p ps where p: "parts = p # ps" by (cases parts) auto
    from split_loop_hd [of "[p]" ps] obtain more where
      "split_loop ps [p] [] = (p # takeWhile (\<lambda>p. \<not> startswith p ''TRACK '') ps) # more"
      by auto
    then show ?thesis by (simp add: p split_by_track_def)
  qed
  from a b c show ?thesis by blast
qed

theorem split_by_track_first_group_witness:
  "[''CD_DA'', ''TRACK AUDIO'', ''NO COPY''] \<noteq> []
   \<and> hd (split_by_track [''CD_DA'', ''TRACK AUDIO'', ''NO COPY'']) = [''CD_DA'']"
  using split_by_track_first_group [of "[''CD_DA'', ''TRACK AUDIO'', ''NO COPY'']"]
  by (simp add: startswith_def)

text \<open>
  C2 as stated fails: an input whose first record is a \<^verbatim>\<open>TRACK\<close> record gives one
  group, which begins with that record; no empty header group comes before it.
\<close>

theorem split_by_track_no_empty_header:
  "split_by_track [''TRACK AUDIO'', ''NO COPY''] = [[''TRACK AUDIO'', ''NO COPY'']]"
  by (simp add: split_by_track_def startswith_def)

subsection \<open>Field extraction\<close>

text \<open>
  Every record of a folded input has a character that is not whitespace, so no record of
  a group is without tokens.
\<close>

lemma split_ws_aux_nonempty:
  "cur \<noteq> [] \<or> has_word s \<Longrightarrow> split_ws_aux cur s \<noteq> []"
  by (induction s arbitrary: cur) (auto simp: has_word_def)

lemma py_split_nonempty: "has_word s \<Longrightarrow> py_split s \<noteq> []"
  by (simp add: py_split_def split_ws_aux_nonempty)

lemma strip_has_word: "strip s \<noteq> [] \<Longrightarrow> has_word s"
proof (rule ccontr)
  assume s: "strip s \<noteq> []" and n: "\<not> has_word s"
  from n have "\<forall>c\<in>set (rev s). py_isspace c" by (simp add: has_word_def)
  then have "dropWhile py_isspace (rev s) = []" by (simp only: dropWhile_eq_Nil_conv)
  then have "rstrip s = []" by (simp add: rstrip_def)
  then have "strip s = []" by (simp add: strip_def lstrip_def)
  with s show False by simp
qed

lemma has_word_join: "x \<in> set xs \<Longrightarrow> has_word x \<Longrightarrow> has_word (join sep xs)"
  by (induction sep xs rule: join.induct) (auto simp: has_word_def)

lemma has_word_lstrip: "has_word s \<Longrightarrow> has_word (lstrip s)"
proof -
  assume "has_word s"
  then obtain c where c: "c \<in> set s" "\<not> py_isspace c" by (auto simp: has_word_def)
  have "s = takeWhile py_isspace s @ dropWhile py_isspace s" by simp
  with c(1) have "c \<in> set (takeWhile py_isspace s) \<or> c \<in> set (dropWhile py_isspace s)"
    by (metis Un_iff set_append)
  with c(2) have "c \<in> set (dropWhile py_isspace s)"
    by (auto dest: set_takeWhileD)
  with c(2) show ?thesis by (auto simp: has_word_def lstrip_def)
qed

lemma read_loop_has_word:
  "read_loop ls parts c joined = Inr out \<Longrightarrow> \<forall>p\<in>set parts. has_word p \<Longrightarrow>
   \<forall>j\<in>set joined. has_word j \<Longrightarrow> \<forall>j\<in>set out. has_word j"
proof (induction ls arbitrary: parts c joined)
  case Nil
  then show ?case by (simp split: if_splits)
next
  case (Cons l ls)
  let ?ln = "rstrip_nl l"
  show ?case
  proof (cases "skipped ?ln")
    case True
    with Cons.prems(1) have "read_loop ls parts c joined = Inr out" by simp
    from Cons.IH [OF this Cons.prems(2) Cons.prems(3)] show ?thesis .
  next
    case False
    then have w: "has_word ?ln" by (simp add: skipped_def strip_has_word)
    with Cons.prems(2) have p: "\<forall>p\<in>set (parts @ [?ln]). has_word p" by simp
    show ?thesis
    proof (cases "c + net_braces ?ln = 0")
      case True
      with False Cons.prems(1) have
        r: "read_loop ls [] 0 (joined @ [join [NL] (parts @ [?ln])]) = Inr out"
        by (simp add: Let_def)
      from w have "has_word (join [NL] (parts @ [?ln]))"
        by (intro has_word_join [of ?ln]) simp_all
      with Cons.prems(3) have "\<forall>j\<in>set (joined @ [join [NL] (parts @ [?ln])]). has_word j"
        by simp
      from Cons.IH [OF r _ this] show ?thesis by simp
    next
      case nz: False
      with False Cons.prems(1) have
        r: "read_loop ls (parts @ [?ln]) (c + net_braces ?ln) joined = Inr out"
        by (simp add: Let_def split: if_splits)
      from Cons.IH [OF r p Cons.prems(3)] show ?thesis .
    qed
  qed
qed

lemma split_by_track_records:
  "grp \<in> set (split_by_track parts) \<Longrightarrow> p \<in> set grp \<Longrightarrow> p \<in> set parts"
proof -
  assume "grp \<in> set (split_by_track parts)" and "p \<in> set grp"
  then have "p \<in> set (concat (split_by_track parts))" by auto
  then show ?thesis by (simp add: split_by_track_def split_loop_concat)
qed

lemma tokenised_records_nonempty:
  assumes "read_cdrdao_toc file_lines = Inr parts"
    and "data \<in> set (map (map py_split) (split_by_track parts))"
  shows "[] \<notin> set data"
proof
  assume e: "[] \<in> set data"
  from assms(2) obtain grp where g: "grp \<in> set (split_by_track parts)"
    and d: "data = map py_split grp" by auto
  from e d obtain p where p: "p \<in> set grp" and s: "py_split p = []" by auto
  from g p have pp: "p \<in> set parts" by (rule split_by_track_records)
  from assms(1) obtain joined where j: "read_loop file_lines [] 0 [] = Inr joined"
    and m: "parts = map lstrip joined"
    by (auto simp: read_cdrdao_toc_def ebind_eq_Inr)
  from read_loop_has_word [OF j] have "\<forall>j\<in>set joined. has_word j" by simp
  with m pp have "has_word p" by (auto simp: has_word_lstrip)
  then have "py_split p \<noteq> []" by (rule py_split_nonempty)
  with s show False by simp
qed

lemma length_matches: "length (filter (\<lambda>x. hd x = key) data) = count_list (map hd data) key"
  by (induction data) auto

lemma filter_unique:
  "hd x = key \<Longrightarrow> key \<notin> hd ` set pre \<Longrightarrow> key \<notin> hd ` set post \<Longrightarrow>
   filter (\<lambda>x. hd x = key) (pre @ x # post) = [x]"
proof -
  assume k: "hd x = key" and a: "key \<notin> hd ` set pre" and b: "key \<notin> hd ` set post"
  from a have "filter (\<lambda>x. hd x = key) pre = []" by (auto simp: filter_empty_conv)
  moreover from b have "filter (\<lambda>x. hd x = key) post = []" by (auto simp: filter_empty_conv)
  ultimately show ?thesis using k by simp
qed

text \<open>
  C5. In a group whose records all have a token (as every group of a folded input has,
  by \<open>tokenised_records_nonempty\<close>): two or more records with first token \<open>key\<close> give \<open>AmbiguousField key\<close>;
  exactly one gives the transform applied to its remaining tokens, a failure of the
  transform included; none gives \<open>MissingField key\<close> when the field is required
  (\<^verbatim>\<open>missing_ok\<close> false) and \<open>None\<close> otherwise.
\<close>

theorem only_matching_word_cases:
  assumes "[] \<notin> set data"
  shows "(2 \<le> count_list (map hd data) key \<longrightarrow>
            only_matching_word data key process missing_ok = Inl (AmbiguousField key))
       \<and> (\<forall>pre x post. data = pre @ x # post \<and> hd x = key
              \<and> key \<notin> hd ` set pre \<and> key \<notin> hd ` set post \<longrightarrow>
            only_matching_word data key process missing_ok
              = ebind (process (tl x)) (\<lambda>r. Inr (Some r)))
       \<and> (count_list (map hd data) key = 0 \<longrightarrow>
            only_matching_word data key process missing_ok
              = (if missing_ok then Inr None else Inl (MissingField key)))"
proof (intro conjI impI allI)
  assume "2 \<le> count_list (map hd data) key"
  then have "\<not> length (filter (\<lambda>x. hd x = key) data) < 2"
    using length_matches [of key data] by simp
  with assms show "only_matching_word data key process missing_ok = Inl (AmbiguousField key)"
    by (simp add: only_matching_word_def)
next
  fix pre x post
  assume h: "data = pre @ x # post \<and> hd x = key
    \<and> key \<notin> hd ` set pre \<and> key \<notin> hd ` set post"
  then have d: "data = pre @ x # post" and k: "hd x = key"
    and a: "key \<notin> hd ` set pre" and b: "key \<notin> hd ` set post" by simp_all
  have "filter (\<lambda>x. hd x = key) data = [x]"
    unfolding d by (rule filter_unique [OF k a b])
  with assms show "only_matching_word data key process missing_ok
      = ebind (process (tl x)) (\<lambda>r. Inr (Some r))"
    by (simp add: only_matching_word_def)
next
  assume "count_list (map hd data) key = 0"
  then have "filter (\<lambda>x. hd x = key) data = []"
    using length_matches [of key data] by simp
  with assms show "only_matching_word data key process missing_ok
      = (if missing_ok then Inr None else Inl (MissingField key))"
    by (simp add: only_matching_word_def)
qed

theorem only_matching_word_cases_witness:
  "get_catalog [[''CD_DA''], [''CATALOG'', ''1''], [''CATALOG'', ''2'']] = Inl (AmbiguousField ''CATALOG'')
   \<and> get_start [[''TRACK'', ''AUDIO''], [''START'', ''00:02:00'']] = Inr (Some ''00:02:00'')
   \<and> get_isrc [[''TRACK'', ''AUDIO'']] = Inr None
   \<and> get_track_file [[''TRACK'', ''AUDIO'']] = Inl (MissingField ''FILE'')"
proof -
  let ?d1 = "[[''CD_DA''], [''CATALOG'', ''1''], [''CATALOG'', ''2'']]"
  let ?d2 = "[[''TRACK'', ''AUDIO''], [''START'', ''00:02:00'']]"
  let ?d3 = "[[''TRACK'', ''AUDIO'']]"
  have n1: "[] \<notin> set ?d1" and n2: "[] \<notin> set ?d2" and n3: "[] \<notin> set ?d3" by simp_all
  have c1: "2 \<le> count_list (map hd ?d1) ''CATALOG''" by simp
  have c2: "?d2 = [[''TRACK'', ''AUDIO'']] @ [''START'', ''00:02:00''] # []
      \<and> hd [''START'', ''00:02:00''] = ''START''
      \<and> ''START'' \<notin> hd ` set [[''TRACK'', ''AUDIO'']] \<and> ''START'' \<notin> hd ` set []" by simp
  have c3: "count_list (map hd ?d3) ''ISRC'' = 0" and c4: "count_list (map hd ?d3) ''FILE'' = 0"
    by simp_all
  have "get_catalog ?d1 = Inl (AmbiguousField ''CATALOG'')"
    unfolding get_catalog_def
    by (rule only_matching_word_cases [OF n1, THEN conjunct1, THEN mp, OF c1])
  moreover have "get_start ?d2 = Inr (Some ''00:02:00'')"
    unfolding get_start_def
    using only_matching_word_cases [OF n2, THEN conjunct2, THEN conjunct1, THEN spec, THEN spec,
        THEN spec, THEN mp, OF c2, of first_word True]
    by (simp add: first_word_def)
  moreover have "get_isrc ?d3 = Inr None"
    unfolding get_isrc_def
    using only_matching_word_cases [OF n3, THEN conjunct2, THEN conjunct2, THEN mp, OF c3,
        of _ True]
    by simp
  moreover have "get_track_file ?d3 = Inl (MissingField ''FILE'')"
    unfolding get_track_file_def
    using only_matching_word_cases [OF n3, THEN conjunct2, THEN conjunct2, THEN mp, OF c4,
        of _ False]
    by simp
  ultimately show ?thesis by (intro conjI)
qed

subsection \<open>Line folding\<close>

lemma kept_Cons:
  "kept (l # ls) = (if skipped (rstrip_nl l) then kept ls else rstrip_nl l # kept ls)"
  by (simp add: kept_def)

lemma balance_simps [simp]: "balance [] = 0" "balance (k # ks) = net_braces k + balance ks"
  by (simp_all add: balance_def)

lemma unbalanced_Nil: "unbalanced c [] = (c \<noteq> 0)"
  by (auto simp: unbalanced_def)

lemma unbalanced_Cons:
  "unbalanced c (k # ks) = (c < 0 \<or> unbalanced (c + net_braces k) ks)"
proof -
  have "(\<exists>n\<le>length (k # ks). c + balance (take n (k # ks)) < 0)
      = (c < 0 \<or> (\<exists>m\<le>length ks. c + net_braces k + balance (take m ks) < 0))"
  proof
    assume "\<exists>n\<le>length (k # ks). c + balance (take n (k # ks)) < 0"
    then obtain n where n: "n \<le> length (k # ks)" "c + balance (take n (k # ks)) < 0" by blast
    show "c < 0 \<or> (\<exists>m\<le>length ks. c + net_braces k + balance (take m ks) < 0)"
    proof (cases n)
      case 0
      with n show ?thesis by simp
    next
      case (Suc m)
      with n have "m \<le> length ks \<and> c + net_braces k + balance (take m ks) < 0" by simp
      then show ?thesis by blast
    qed
  next
    assume "c < 0 \<or> (\<exists>m\<le>length ks. c + net_braces k + balance (take m ks) < 0)"
    then show "\<exists>n\<le>length (k # ks). c + balance (take n (k # ks)) < 0"
    proof
      assume "c < 0"
      then have "0 \<le> length (k # ks) \<and> c + balance (take 0 (k # ks)) < 0" by simp
      then show ?thesis by blast
    next
      assume "\<exists>m\<le>length ks. c + net_braces k + balance (take m ks) < 0"
      then obtain m where "m \<le> length ks" "c + net_braces k + balance (take m ks) < 0" by blast
      then have "Suc m \<le> length (k # ks) \<and> c + balance (take (Suc m) (k # ks)) < 0" by simp
      then show ?thesis by blast
    qed
  qed
  then show ?thesis by (simp add: unbalanced_def add.assoc)
qed

text \<open>
  The invariant of the loop: the counter is not negative, and the accumulator
  \<^verbatim>\<open>parts\<close> is empty exactly when the counter is zero.
\<close>

lemma read_loop_fails_iff:
  "0 \<le> c \<Longrightarrow> (parts = [] \<longleftrightarrow> c = 0) \<Longrightarrow>
   (read_loop ls parts c joined = Inl UnbalancedBraces) = unbalanced c (kept ls)"
proof (induction ls arbitrary: parts c joined)
  case Nil
  then show ?case by (simp add: kept_def unbalanced_Nil)
next
  case (Cons l ls)
  show ?case
  proof (cases "skipped (rstrip_nl l)")
    case True
    with Cons show ?thesis by (simp add: kept_Cons)
  next
    case False
    let ?c = "c + net_braces (rstrip_nl l)"
    consider "?c < 0" | "?c = 0" | "0 < ?c" by linarith
    then show ?thesis
    proof cases
      case 1
      have "unbalanced ?c (kept ls)"
        using 1 by (auto simp: unbalanced_def intro: exI [of _ 0])
      with 1 False Cons.prems show ?thesis
        by (simp add: kept_Cons unbalanced_Cons Let_def)
    next
      case 2
      with Cons.IH [where parts = "[]" and c = ?c] have
        "(read_loop ls [] ?c (joined @ [join [NL] (parts @ [rstrip_nl l])]) = Inl UnbalancedBraces)
           = unbalanced ?c (kept ls)" by simp
      with 2 False Cons.prems show ?thesis
        by (simp add: kept_Cons unbalanced_Cons Let_def)
    next
      case 3
      with Cons.IH [where parts = "parts @ [rstrip_nl l]" and c = ?c and joined = joined] have
        "(read_loop ls (parts @ [rstrip_nl l]) ?c joined = Inl UnbalancedBraces)
           = unbalanced ?c (kept ls)" by simp
      with 3 False Cons.prems show ?thesis
        by (simp add: kept_Cons unbalanced_Cons Let_def)
    qed
  qed
qed

lemma read_loop_error: "read_loop ls parts c joined = Inl e \<Longrightarrow> e = UnbalancedBraces"
  by (induction ls arbitrary: parts c joined) (auto simp: Let_def split: if_splits)

text \<open>
  C6. Reading fails with \<open>UnbalancedBraces\<close> exactly when the running counter, taken
  over the lines that are neither comments nor blank, is negative after some line or is
  not zero after the last one. The conversion then fails with the same error and returns
  no text; in every other case the reading succeeds.
\<close>

theorem unbalanced_braces_fail:
  "(read_cdrdao_toc file_lines = Inl UnbalancedBraces)
     = ((\<exists>n\<le>length (kept file_lines). balance (take n (kept file_lines)) < 0)
        \<or> balance (kept file_lines) \<noteq> 0)
   \<and> (((\<exists>n\<le>length (kept file_lines). balance (take n (kept file_lines)) < 0)
        \<or> balance (kept file_lines) \<noteq> 0) \<longrightarrow> toc_to_cuesheet file_lines = Inl UnbalancedBraces)
   \<and> (\<not> ((\<exists>n\<le>length (kept file_lines). balance (take n (kept file_lines)) < 0)
        \<or> balance (kept file_lines) \<noteq> 0) \<longrightarrow> (\<exists>parts. read_cdrdao_toc file_lines = Inr parts))"
proof -
  have a: "(read_loop file_lines [] 0 [] = Inl UnbalancedBraces) = unbalanced 0 (kept file_lines)"
    by (rule read_loop_fails_iff) simp_all
  have b: "(read_cdrdao_toc file_lines = Inl UnbalancedBraces)
         = (read_loop file_lines [] 0 [] = Inl UnbalancedBraces)"
    by (cases "read_loop file_lines [] 0 []") (simp_all add: read_cdrdao_toc_def)
  have c: "\<exists>parts. read_cdrdao_toc file_lines = Inr parts"
    if "read_cdrdao_toc file_lines \<noteq> Inl UnbalancedBraces"
    using that read_loop_error [of file_lines "[]" 0 "[]"]
    by (cases "read_loop file_lines [] 0 []") (auto simp: read_cdrdao_toc_def)
  have d: "toc_to_cuesheet file_lines = Inl UnbalancedBraces"
    if "read_cdrdao_toc file_lines = Inl UnbalancedBraces"
    using that by (simp add: toc_to_cuesheet_def)
  have e: "unbalanced 0 (kept file_lines)
         = ((\<exists>n\<le>length (kept file_lines). balance (take n (kept file_lines)) < 0)
            \<or> balance (kept file_lines) \<noteq> 0)"
    by (simp add: unbalanced_def)
  from a b c d show ?thesis
    unfolding e by blast
qed

theorem unbalanced_braces_fail_witness:
  "balance (kept [''CD_DA'', ''CD_TEXT {'', ''  LANGUAGE_MAP { 0 : EN }'']) \<noteq> 0
   \<and> toc_to_cuesheet [''CD_DA'', ''CD_TEXT {'', ''  LANGUAGE_MAP { 0 : EN }''] = Inl UnbalancedBraces
   \<and> (\<exists>parts. read_cdrdao_toc [''CD_DA'', ''CD_TEXT {'', ''}''] = Inr parts)"
proof -
  let ?bad = "[''CD_DA'', ''CD_TEXT {'', ''  LANGUAGE_MAP { 0 : EN }'']"
  let ?good = "[''CD_DA'', ''CD_TEXT {'', ''}'']"
  have k1: "kept ?bad = ?bad"
    by code_simp
  have b1: "balance (kept ?bad) \<noteq> 0"
    unfolding k1 by (simp add: net_braces_def)
  have k2: "kept ?good = ?good"
    by code_simp
  have "\<not> unbalanced 0 (kept ?good)"
    unfolding k2 by (simp add: unbalanced_Cons unbalanced_Nil net_braces_def)
  then have b2: "\<not> ((\<exists>n\<le>length (kept ?good). balance (take n (kept ?good)) < 0)
      \<or> balance (kept ?good) \<noteq> 0)"
    by (simp add: unbalanced_def)
  have "toc_to_cuesheet ?bad = Inl UnbalancedBraces"
    by (rule unbalanced_braces_fail [of ?bad, THEN conjunct2, THEN conjunct1, THEN mp])
      (rule disjI2, rule b1)
  moreover have "\<exists>parts. read_cdrdao_toc ?good = Inr parts"
    by (rule unbalanced_braces_fail [of ?good, THEN conjunct2, THEN conjunct2, THEN mp, OF b2])
  ultimately show ?thesis using b1 by (intro conjI)
qed

subsection \<open>Timecode arithmetic\<close>

lemma lt10_cases: "d < 10 \<Longrightarrow> d \<in> {0::nat, 1, 2, 3, 4, 5, 6, 7, 8, 9}"
  by auto

lemma digit_char_props:
  assumes "d < 10"
  shows "is_digit (digit_char d)" and "digit_val (digit_char d) = d"
    and "\<not> py_isspace (digit_char d)" and "digit_char d \<noteq> CHR ''_''"
    and "digit_char d \<noteq> CHR ''-''" and "digit_char d \<noteq> CHR ''+''"
    and "digit_char d \<noteq> CHR '':''"
  using lt10_cases [OF assms]
  by (auto simp: digit_char_def is_digit_def digit_val_def py_isspace_def)

lemma is_digit_props:
  assumes "is_digit c"
  shows "\<not> py_isspace c" and "c \<noteq> CHR ''_''" and "c \<noteq> CHR ''-''" and "c \<noteq> CHR ''+''"
    and "c \<noteq> CHR '':''"
  using assms by (auto simp: is_digit_def py_isspace_def)

lemma str_nat_digits: "c \<in> set (str_nat n) \<Longrightarrow> is_digit c"
proof (induction n rule: str_nat.induct)
  case (1 n)
  show ?case
  proof (cases "n < 10")
    case True
    with "1.prems" show ?thesis by (simp add: str_nat.simps [of n] digit_char_props)
  next
    case False
    with "1.prems" "1.IH" show ?thesis
      by (auto simp: str_nat.simps [of n] digit_char_props)
  qed
qed

lemma str_nat_nonempty: "str_nat n \<noteq> []"
  by (simp add: str_nat.simps [of n])

lemma digits_value_snoc: "digits_value (s @ [c]) = 10 * digits_value s + digit_val c"
  by (simp add: digits_value_def)

lemma digits_value_str_nat: "digits_value (str_nat n) = n"
proof (induction n rule: str_nat.induct)
  case (1 n)
  show ?case
  proof (cases "n < 10")
    case True
    then show ?thesis by (simp add: str_nat.simps [of n] digits_value_def digit_char_props)
  next
    case False
    with "1.IH" show ?thesis
      by (simp add: str_nat.simps [of n] digits_value_snoc digit_char_props)
  qed
qed

lemma digits_value_zeros: "digits_value (replicate k CHR ''0'' @ s) = digits_value s"
  by (induction k) (simp_all add: digits_value_def digit_val_def)

lemma int_digits_all: "s \<noteq> [] \<Longrightarrow> \<forall>c\<in>set s. is_digit c \<Longrightarrow> int_digits s"
  by (induction s rule: int_digits.induct) (auto simp: is_digit_props)

lemma strip_id: "s \<noteq> [] \<Longrightarrow> \<not> py_isspace (hd s) \<Longrightarrow> \<not> py_isspace (last s) \<Longrightarrow> strip s = s"
proof -
  assume s: "s \<noteq> []" and h: "\<not> py_isspace (hd s)" and l: "\<not> py_isspace (last s)"
  from s l have "dropWhile py_isspace (rev s) = rev s"
    by (cases "rev s") (auto simp: last_rev [symmetric] simp del: last_rev)
  then have "rstrip s = s" by (simp add: rstrip_def)
  moreover from s h have "lstrip s = s" by (cases s) (auto simp: lstrip_def)
  ultimately show ?thesis by (simp add: strip_def)
qed

lemma py_int_digits:
  assumes "s \<noteq> []" and "\<forall>c\<in>set s. is_digit c"
  shows "py_int s = Inr (int (digits_value s))"
proof -
  from assms have hd: "is_digit (hd s)" and last: "is_digit (last s)" by simp_all
  with assms have st: "strip s = s" by (simp add: strip_id is_digit_props)
  from assms have f: "filter (\<lambda>c. c \<noteq> CHR ''_'') s = s"
    by (auto simp: filter_id_conv is_digit_props)
  from hd have "hd s \<noteq> CHR ''-''" "hd s \<noteq> CHR ''+''" by (simp_all add: is_digit_props)
  with assms st f show ?thesis by (simp add: py_int_def int_digits_all)
qed

lemma py_int_minus_digits:
  assumes "s \<noteq> []" and "\<forall>c\<in>set s. is_digit c"
  shows "py_int (CHR ''-'' # s) = Inr (- int (digits_value s))"
proof -
  from assms have "is_digit (last s)" by simp
  with assms have "\<not> py_isspace (last (CHR ''-'' # s))" by (simp add: is_digit_props)
  moreover have "\<not> py_isspace (hd (CHR ''-'' # s))" by (simp add: py_isspace_def)
  ultimately have st: "strip (CHR ''-'' # s) = CHR ''-'' # s"
    by (intro strip_id) simp_all
  from assms have f: "filter (\<lambda>c. c \<noteq> CHR ''_'') s = s"
    by (auto simp: filter_id_conv is_digit_props)
  with assms st show ?thesis by (simp add: py_int_def int_digits_all)
qed

lemma py_int_fmt02d: "py_int (fmt02d n) = Inr n"
proof (cases "n < 0")
  case True
  then show ?thesis
    by (simp add: fmt02d_def py_int_minus_digits str_nat_nonempty str_nat_digits
        digits_value_str_nat)
next
  case False
  let ?s = "replicate (2 - length (str_nat (nat n))) CHR ''0'' @ str_nat (nat n)"
  have "?s \<noteq> []" by (simp add: str_nat_nonempty)
  moreover have "is_digit CHR ''0''" by (simp add: is_digit_def)
  then have "\<forall>c\<in>set ?s. is_digit c"
    using str_nat_digits by auto
  ultimately have "py_int ?s = Inr (int (digits_value ?s))" by (rule py_int_digits)
  with False show ?thesis
    by (simp add: fmt02d_def digits_value_zeros digits_value_str_nat)
qed

lemma fmt02d_no_colon: "CHR '':'' \<notin> set (fmt02d n)"
  using is_digit_props(5) str_nat_digits by (auto simp: fmt02d_def)

lemma split_on_aux_append:
  "sep \<notin> set a \<Longrightarrow> split_on_aux sep cur (a @ rest) = split_on_aux sep (cur @ a) rest"
  by (induction a arbitrary: cur) auto

lemma split_on_three:
  assumes "sep \<notin> set a" and "sep \<notin> set b" and "sep \<notin> set c"
  shows "split_on sep (a @ sep # b @ sep # c) = [a, b, c]"
proof -
  have "split_on_aux sep [] (a @ sep # b @ sep # c) = a # split_on_aux sep [] (b @ sep # c)"
    using assms(1) by (simp add: split_on_aux_append)
  also have "split_on_aux sep [] (b @ sep # c) = b # split_on_aux sep [] c"
    using assms(2) by (simp add: split_on_aux_append)
  also have "split_on_aux sep [] c = [c]"
    using assms(3) split_on_aux_append [of sep c "[]" "[]"] by simp
  finally show ?thesis by (simp add: split_on_def)
qed

lemma to_fracs_timecode: "to_fracs (timecode m s f) = Inr (m * 60 * 75 + s * 75 + f)"
proof -
  have "split_on CHR '':'' (fmt02d m @ CHR '':'' # fmt02d s @ CHR '':'' # fmt02d f)
      = [fmt02d m, fmt02d s, fmt02d f]"
    by (rule split_on_three) (rule fmt02d_no_colon)+
  then show ?thesis by (simp add: timecode_def to_fracs_def py_int_fmt02d)
qed

lemma format_fracs_timecode:
  "format_fracs n = timecode (n div 75 div 60) (n div 75 mod 60) (n mod 75)"
  by (simp add: format_fracs_def timecode_def Let_def)

lemma to_fracs_format_fracs: "to_fracs (format_fracs n) = Inr n"
proof -
  have "n div 75 div 60 * 60 * 75 + n div 75 mod 60 * 75 + n mod 75 = n"
    by presburger
  then show ?thesis
    unfolding format_fracs_timecode to_fracs_timecode by (simp only:)
qed

lemma divmod_75:
  "0 \<le> f \<Longrightarrow> f < 75 \<Longrightarrow> (x * 75 + f) div 75 = (x::int) \<and> (x * 75 + f) mod 75 = f"
  by simp

lemma divmod_60:
  "0 \<le> s \<Longrightarrow> s < 60 \<Longrightarrow> (m * 60 + s) div 60 = (m::int) \<and> (m * 60 + s) mod 60 = s"
  by simp

lemma format_fracs_normal:
  assumes "0 \<le> s" "s < 60" "0 \<le> f" "f < 75"
  shows "format_fracs (m * 60 * 75 + s * 75 + f) = timecode m s f"
proof -
  have n: "m * 60 * 75 + s * 75 + f = (m * 60 + s) * 75 + f" by (simp add: algebra_simps)
  from assms have a: "((m * 60 + s) * 75 + f) div 75 = m * 60 + s"
    and b: "((m * 60 + s) * 75 + f) mod 75 = f"
    using divmod_75 [of f "m * 60 + s"] by (simp_all only:)
  from assms have c: "(m * 60 + s) div 60 = m" and d: "(m * 60 + s) mod 60 = s"
    using divmod_60 [of s m] by (simp_all only:)
  show ?thesis unfolding format_fracs_timecode n a b c d by (rule refl)
qed

lemma offset_sum_frames:
  "offset_sum x y = Inr t \<Longrightarrow>
   \<exists>a b. to_fracs x = Inr a \<and> to_fracs y = Inr b \<and> to_fracs t = Inr (a + b)"
  by (auto simp: offset_sum_def ebind_eq_Inr to_fracs_format_fracs)

text \<open>
  C3, as the code has it. A timecode whose seconds are in \<open>[0, 60)\<close> and whose frames
  are in \<open>[0, 75)\<close>, each field written with two digits (or more, for minutes that need
  them), parses to a frame count that formats to the same text. Here "format" is the
  second half of \<^verbatim>\<open>offset_sum\<close>. There is no bound on the minutes.
\<close>

theorem timecode_round_trip:
  assumes "0 \<le> s" and "s < 60" and "0 \<le> f" and "f < 75"
  shows "ebind (to_fracs (timecode m s f)) (\<lambda>n. Inr (format_fracs n)) = Inr (timecode m s f)"
  by (simp only: to_fracs_timecode ebind_Inr format_fracs_normal [OF assms])

theorem timecode_round_trip_witness:
  "timecode 3 59 74 = ''03:59:74''
   \<and> ebind (to_fracs ''03:59:74'') (\<lambda>n. Inr (format_fracs n)) = Inr ''03:59:74''"
proof -
  have t: "timecode 3 59 74 = ''03:59:74''" by code_simp
  from timecode_round_trip [of 59 74 3] show ?thesis unfolding t by simp
qed

text \<open>
  C3 as stated fails: frames below 75 are not enough. \<^verbatim>\<open>00:60:00\<close> has frames
  \<^verbatim>\<open>00\<close>, and parses to 4500 frames, which format to \<^verbatim>\<open>01:00:00\<close>.
\<close>

theorem round_trip_seconds_counterexample:
  "timecode 0 60 0 = ''00:60:00''
   \<and> ebind (to_fracs ''00:60:00'') (\<lambda>n. Inr (format_fracs n)) = Inr ''01:00:00''"
  by code_simp

text \<open>
  C4, as the code has it. Adding \<^verbatim>\<open>00:00:00\<close> to a timecode in normal form
  (seconds in \<open>[0, 60)\<close>, frames in \<open>[0, 75)\<close>, fields as the formatter writes them)
  gives the timecode back. For every text that parses, adding \<^verbatim>\<open>00:00:00\<close> gives a
  text of the same frame count. A frame count of zero is written \<^verbatim>\<open>00:00:00\<close>,
  which parses to zero.
\<close>

theorem offset_sum_zero_identity:
  "(0 \<le> s \<and> s < 60 \<and> 0 \<le> f \<and> f < 75 \<longrightarrow>
      offset_sum (timecode m s f) ''00:00:00'' = Inr (timecode m s f))
   \<and> (\<forall>t n. to_fracs t = Inr n \<longrightarrow>
        (\<exists>t'. offset_sum t ''00:00:00'' = Inr t' \<and> to_fracs t' = Inr n))
   \<and> format_fracs 0 = ''00:00:00'' \<and> to_fracs ''00:00:00'' = Inr 0"
proof -
  have z: "to_fracs ''00:00:00'' = Inr 0" by code_simp
  have r: "format_fracs 0 = ''00:00:00''" by code_simp
  have a: "offset_sum (timecode m s f) ''00:00:00'' = Inr (timecode m s f)"
    if h: "0 \<le> s \<and> s < 60 \<and> 0 \<le> f \<and> f < 75"
  proof -
    from h have "format_fracs (m * 60 * 75 + s * 75 + f) = timecode m s f"
      by (intro format_fracs_normal) simp_all
    then show ?thesis
      by (simp only: offset_sum_def z to_fracs_timecode ebind_Inr add_0_right)
  qed
  have b: "\<exists>t'. offset_sum t ''00:00:00'' = Inr t' \<and> to_fracs t' = Inr n"
    if "to_fracs t = Inr n" for t n
    using that by (simp add: offset_sum_def z to_fracs_format_fracs)
  from a b z r show ?thesis by blast
qed

theorem offset_sum_zero_identity_witness:
  "offset_sum ''03:59:74'' ''00:00:00'' = Inr ''03:59:74''"
proof -
  have t: "timecode 3 59 74 = ''03:59:74''" by code_simp
  have "offset_sum (timecode 3 59 74) ''00:00:00'' = Inr (timecode 3 59 74)"
    by (rule offset_sum_zero_identity [of 59 74 3, THEN conjunct1, THEN mp]) simp
  then show ?thesis unfolding t .
qed

text \<open>
  C4 as stated fails for a timecode that parses but is not in normal form: the sum is
  written in normal form, so \<^verbatim>\<open>00:60:00\<close> plus zero is \<^verbatim>\<open>01:00:00\<close>.
\<close>

theorem offset_sum_zero_counterexample:
  "to_fracs ''00:60:00'' = Inr 4500
   \<and> offset_sum ''00:60:00'' ''00:00:00'' = Inr ''01:00:00''"
  by code_simp

subsection \<open>The cue emitter\<close>

lemma emit_audio_Inr:
  assumes "emit_audio track data so = Inr (ls, so')"
  shows "\<exists>isrc ts0 len ts start l4 silence.
      get_isrc data = Inr isrc \<and> get_track_file data = Inr (Some [ts0, len]) \<and>
      offset_sum (if ts0 = ''0'' then ''00:00:00'' else ts0) so = Inr ts \<and>
      get_start data = Inr start \<and> index_lines ts start = Inr l4 \<and>
      get_silence data = Inr silence \<and>
      ls = [''  TRACK '' @ fmt02d (int track) @ '' AUDIO'']
           @ (if has_copy data then [''    FLAGS DCP''] else [])
           @ (case isrc of None \<Rightarrow> [] | Some i \<Rightarrow> [''    ISRC '' @ i]) @ l4 \<and>
      (case silence of None \<Rightarrow> so' = so | Some s \<Rightarrow> offset_sum so s = Inr so')"
proof -
  from assms obtain isrc where i: "get_isrc data = Inr isrc"
    by (auto simp: emit_audio_def Let_def ebind_eq_Inr)
  with assms obtain tf where tf: "get_track_file data = Inr tf"
    by (auto simp: emit_audio_def Let_def ebind_eq_Inr)
  with assms i obtain ts0 len where tf2: "tf = Some [ts0, len]"
    by (auto simp: emit_audio_def Let_def split: option.splits list.splits)
  from assms i tf tf2 obtain ts where
    ts: "offset_sum (if ts0 = ''0'' then ''00:00:00'' else ts0) so = Inr ts"
    by (auto simp: emit_audio_def Let_def ebind_eq_Inr)
  from assms i tf tf2 ts obtain start where st: "get_start data = Inr start"
    by (auto simp: emit_audio_def Let_def ebind_eq_Inr)
  from assms i tf tf2 ts st obtain l4 where l4: "index_lines ts start = Inr l4"
    by (auto simp: emit_audio_def Let_def ebind_eq_Inr)
  from assms i tf tf2 ts st l4 obtain silence where si: "get_silence data = Inr silence"
    by (auto simp: emit_audio_def Let_def ebind_eq_Inr)
  from assms i tf tf2 ts st l4 si have
    "ls = [''  TRACK '' @ fmt02d (int track) @ '' AUDIO'']
           @ (if has_copy data then [''    FLAGS DCP''] else [])
           @ (case isrc of None \<Rightarrow> [] | Some i \<Rightarrow> [''    ISRC '' @ i]) @ l4 \<and>
      (case silence of None \<Rightarrow> so' = so | Some s \<Rightarrow> offset_sum so s = Inr so')"
    by (auto simp: emit_audio_def Let_def ebind_eq_Inr split: option.splits)
  with i tf tf2 ts st l4 si show ?thesis by blast
qed

lemma well_indented_lines:
  "well_indented (''FILE '' @ x)" "well_indented (''CATALOG '' @ x)"
  "well_indented (''  TRACK '' @ x)" "well_indented ''    FLAGS DCP''"
  "well_indented (''    ISRC '' @ x)" "well_indented (''    INDEX 00 '' @ x)"
  "well_indented (''    INDEX 01 '' @ x)"
  by (simp_all add: well_indented_def directive_def indent_of_def)

lemmas well_indented_conses = well_indented_lines [simplified]

lemma index_lines_Inr:
  assumes "index_lines ts start = Inr l4"
  shows "((start = None \<or> start = Some []) \<and> l4 = [''    INDEX 01 '' @ ts])
       \<or> (\<exists>st t1. start = Some st \<and> st \<noteq> [] \<and> offset_sum ts st = Inr t1
              \<and> l4 = [''    INDEX 00 '' @ ts, ''    INDEX 01 '' @ t1])"
  using assms by (auto simp: index_lines_def ebind_eq_Inr split: option.splits if_splits)

lemma emit_audio_well_indented:
  assumes "emit_audio track data so = Inr (ls, so')" and "l \<in> set ls"
  shows "well_indented l"
proof -
  from emit_audio_Inr [OF assms(1)] obtain isrc ts start l4 where
    l4: "index_lines ts start = Inr l4" and
    ls: "ls = [''  TRACK '' @ fmt02d (int track) @ '' AUDIO'']
           @ (if has_copy data then [''    FLAGS DCP''] else [])
           @ (case isrc of None \<Rightarrow> [] | Some i \<Rightarrow> [''    ISRC '' @ i]) @ l4"
    by blast
  from index_lines_Inr [OF l4] have "\<forall>l\<in>set l4. well_indented l"
    by (auto simp: well_indented_conses)
  with assms(2) show ?thesis
    unfolding ls by (auto simp: well_indented_conses split: option.splits if_splits)
qed

lemma emit_group_header:
  assumes "emit_group a 0 data so = Inr (ls, so')"
  shows "\<exists>df catalog. ls = (''FILE '' @ df @ '' BINARY'')
           # (case catalog of None \<Rightarrow> [] | Some c \<Rightarrow> [''CATALOG '' @ c])"
proof (cases "get_catalog data")
  case (Inl e)
  with assms show ?thesis by (simp add: emit_group_def)
next
  case (Inr catalog)
  let ?df = "if a then [DQ] @ ''data.wav'' @ [DQ] else [DQ] @ ''data_1'' @ [DQ]"
  from Inr assms have "ls = (''FILE '' @ ?df @ '' BINARY'')
           # (case catalog of None \<Rightarrow> [] | Some c \<Rightarrow> [''CATALOG '' @ c])"
    by (cases catalog) (simp_all add: emit_group_def)
  then show ?thesis by blast
qed

lemma emit_group_track:
  assumes "emit_group a track data so = Inr (ls, so')" and "0 < track"
  shows "(track_type data = Inr ''AUDIO'' \<and> emit_audio track data so = Inr (ls, so'))
       \<or> (track_type data = Inr ''MODE1'' \<and> so' = so \<and>
           ls = [''  TRACK '' @ fmt02d (int track) @ '' MODE1/2048'', ''    INDEX 01 00:00:00''])"
proof -
  from assms obtain ty where ty: "track_type data = Inr ty"
    unfolding emit_group_def by (cases "track_type data") simp_all
  show ?thesis
  proof (cases "ty = ''AUDIO''")
    case True
    with ty assms show ?thesis by (simp add: emit_group_def)
  next
    case na: False
    show ?thesis
    proof (cases "ty = ''MODE1''")
      case True
      with ty assms show ?thesis by (simp add: emit_group_def)
    next
      case False
      with na ty assms show ?thesis by (simp add: emit_group_def)
    qed
  qed
qed

lemma emit_group_well_indented:
  assumes "emit_group a track data so = Inr (ls, so')" and "l \<in> set ls"
  shows "well_indented l"
proof (cases "track = 0")
  case True
  with assms(1) emit_group_header [of a data so ls so'] obtain df catalog where
    "ls = (''FILE '' @ df @ '' BINARY'')
           # (case catalog of None \<Rightarrow> [] | Some c \<Rightarrow> [''CATALOG '' @ c])" by blast
  with assms(2) show ?thesis
    by (cases catalog) (auto simp: well_indented_conses)
next
  case False
  with emit_group_track [OF assms(1)] consider
    "emit_audio track data so = Inr (ls, so')"
    | "ls = [''  TRACK '' @ fmt02d (int track) @ '' MODE1/2048'', ''    INDEX 01 00:00:00'']"
    by blast
  then show ?thesis
  proof cases
    case 1
    from 1 assms(2) show ?thesis by (rule emit_audio_well_indented)
  next
    case 2
    with assms(2) show ?thesis by (auto simp: well_indented_conses)
  qed
qed

lemma emit_groups_well_indented:
  "emit_groups a track tracks so = Inr ls \<Longrightarrow> l \<in> set ls \<Longrightarrow> well_indented l"
proof (induction tracks arbitrary: track so ls)
  case Nil
  then show ?case by simp
next
  case (Cons d ds)
  from Cons.prems(1) obtain l1 so1 l2 where
    g: "emit_group a track d so = Inr (l1, so1)" and
    r: "emit_groups a (Suc track) ds so1 = Inr l2" and ls: "ls = l1 @ l2"
    by (auto simp: ebind_eq_Inr)
  from Cons.prems(2) ls consider "l \<in> set l1" | "l \<in> set l2" by auto
  then show ?case
  proof cases
    case 1
    with g show ?thesis by (rule emit_group_well_indented)
  next
    case 2
    with r show ?thesis by (rule Cons.IH)
  qed
qed

text \<open>
  C1, as the code has it. In the text of every successful conversion, indentation is two
  spaces per nesting level: \<^verbatim>\<open>FILE\<close> and \<^verbatim>\<open>CATALOG\<close> lines have
  no indentation (level 0), \<^verbatim>\<open>TRACK\<close> lines have two spaces (level 1), and
  \<^verbatim>\<open>FLAGS\<close>, \<^verbatim>\<open>ISRC\<close> and \<^verbatim>\<open>INDEX\<close> lines have four
  (level 2). The text is the lines of \<^verbatim>\<open>cuesheet\<close> joined by newlines, the last
  of them empty.
\<close>

theorem cuesheet_indentation:
  assumes "make_cuesheet parts = Inr text"
  shows "\<exists>ls. cuesheet_lines parts = Inr ls \<and> text = join [NL] ls
       \<and> (\<forall>l\<in>set ls. l = [] \<or> (directive l, indent_of l) \<in>
            {(''FILE'', 0), (''CATALOG'', 0), (''TRACK'', 2),
             (''FLAGS'', 4), (''ISRC'', 4), (''INDEX'', 4)})"
proof -
  from assms obtain ls where ls: "cuesheet_lines parts = Inr ls" and t: "text = join [NL] ls"
    by (auto simp: make_cuesheet_def ebind_eq_Inr)
  from ls obtain a ls0 where
    g: "emit_groups a 0 (map (map py_split) (split_by_track parts)) ''00:00:00'' = Inr ls0"
    and l0: "ls = ls0 @ [[]]"
    by (auto simp: cuesheet_lines_def Let_def ebind_eq_Inr split: if_splits)
  have "\<forall>l\<in>set ls. well_indented l"
    unfolding l0 using emit_groups_well_indented [OF g] by (auto simp: well_indented_def)
  with ls t show ?thesis unfolding well_indented_def by blast
qed

theorem cuesheet_indentation_witness:
  \<open>make_cuesheet [''CD_DA'', ''TRACK AUDIO'', ''FILE "data.wav" 0 300'']
     = Inr (join [NL] [''FILE "data.wav" BINARY'', ''  TRACK 01 AUDIO'', ''    INDEX 01 00:00:00'', ''''])
   \<and> cuesheet_lines [''CD_DA'', ''TRACK AUDIO'', ''FILE "data.wav" 0 300'']
     = Inr [''FILE "data.wav" BINARY'', ''  TRACK 01 AUDIO'', ''    INDEX 01 00:00:00'', '''']
   \<and> (directive ''  TRACK 01 AUDIO'', indent_of ''  TRACK 01 AUDIO'') = (''TRACK'', 2)\<close>
proof -
  let ?parts = \<open>[''CD_DA'', ''TRACK AUDIO'', ''FILE "data.wav" 0 300'']\<close>
  let ?ls = \<open>[''FILE "data.wav" BINARY'', ''  TRACK 01 AUDIO'', ''    INDEX 01 00:00:00'', '''']\<close>
  have c: "cuesheet_lines ?parts = Inr ?ls" by code_simp
  then have m: "make_cuesheet ?parts = Inr (join [NL] ?ls)"
    by (simp only: make_cuesheet_def ebind_Inr)
  from cuesheet_indentation [OF m] obtain ls where
    "cuesheet_lines ?parts = Inr ls" and
    a: "\<forall>l\<in>set ls. l = [] \<or> (directive l, indent_of l) \<in>
            {(''FILE'', 0), (''CATALOG'', 0), (''TRACK'', 2),
             (''FLAGS'', 4), (''ISRC'', 4), (''INDEX'', 4)}"
    by blast
  with c have ls: "ls = ?ls" by simp
  have "''  TRACK 01 AUDIO'' \<in> set ls" unfolding ls by simp
  with a have "''  TRACK 01 AUDIO'' = [] \<or> (directive ''  TRACK 01 AUDIO'', indent_of ''  TRACK 01 AUDIO'') \<in>
            {(''FILE'', 0), (''CATALOG'', 0), (''TRACK'', 2),
             (''FLAGS'', 4), (''ISRC'', 4), (''INDEX'', 4)}" by (rule bspec)
  then have "(directive ''  TRACK 01 AUDIO'', indent_of ''  TRACK 01 AUDIO'') = (''TRACK'', 2)"
    by (simp add: directive_def)
  with c m show ?thesis by (intro conjI)
qed

text \<open>
  C1 as stated fails: the \<^verbatim>\<open>TRACK\<close> line is not at level 0 but indented by two
  spaces, and the \<^verbatim>\<open>INDEX\<close> line below it by four, not two.
\<close>

theorem track_line_indent_counterexample:
  \<open>toc_to_cuesheet [''CD_DA'', ''TRACK AUDIO'', ''FILE "data.wav" 0 300'']
     = Inr (''FILE "data.wav" BINARY'' @ [NL] @ ''  TRACK 01 AUDIO'' @ [NL]
            @ ''    INDEX 01 00:00:00'' @ [NL])
   \<and> indent_of ''  TRACK 01 AUDIO'' = 2 \<and> indent_of ''    INDEX 01 00:00:00'' = 4\<close>
  by code_simp

lemma is_index_lines:
  "\<not> is_index (''  TRACK '' @ x)" "\<not> is_index ''    FLAGS DCP''"
  "\<not> is_index (''    ISRC '' @ x)" "is_index (''    INDEX 00 '' @ x)"
  "is_index (''    INDEX 01 '' @ x)"
  by (simp_all add: is_index_def directive_def)

lemmas is_index_conses = is_index_lines [simplified]

lemma emit_audio_index:
  assumes "emit_audio track data so = Inr (ls, so')"
  shows "\<exists>ts0 len ts start l4.
      get_track_file data = Inr (Some [ts0, len]) \<and>
      offset_sum (if ts0 = ''0'' then ''00:00:00'' else ts0) so = Inr ts \<and>
      get_start data = Inr start \<and> index_lines ts start = Inr l4 \<and>
      filter is_index ls = l4"
proof -
  from emit_audio_Inr [OF assms] obtain isrc ts0 len ts start l4 where
    tf: "get_track_file data = Inr (Some [ts0, len])" and
    ts: "offset_sum (if ts0 = ''0'' then ''00:00:00'' else ts0) so = Inr ts" and
    st: "get_start data = Inr start" and l4: "index_lines ts start = Inr l4" and
    ls: "ls = [''  TRACK '' @ fmt02d (int track) @ '' AUDIO'']
           @ (if has_copy data then [''    FLAGS DCP''] else [])
           @ (case isrc of None \<Rightarrow> [] | Some i \<Rightarrow> [''    ISRC '' @ i]) @ l4"
    by blast
  from index_lines_Inr [OF l4] have "filter is_index l4 = l4"
    by (auto simp: is_index_conses)
  then have "filter is_index ls = l4"
    unfolding ls by (cases isrc) (simp_all add: is_index_conses)
  with tf ts st l4 show ?thesis by blast
qed

text \<open>
  C7. For an audio group at a position after the header, whenever the loop body succeeds:
  the group has one \<^verbatim>\<open>FILE\<close> record, and \<open>track_start\<close> is the sum of its
  declared start (\<^verbatim>\<open>00:00:00\<close> when the token is \<^verbatim>\<open>0\<close>) and the current
  silence offset, also as frame counts. With a \<^verbatim>\<open>START\<close> field the
  \<^verbatim>\<open>INDEX\<close> lines of the group are \<^verbatim>\<open>INDEX 00\<close> at \<open>track_start\<close> and
  \<^verbatim>\<open>INDEX 01\<close> at \<open>track_start\<close> plus \<^verbatim>\<open>START\<close>; without one there is
  the single line \<^verbatim>\<open>INDEX 01\<close> at \<open>track_start\<close>.
\<close>

theorem audio_group_index_lines:
  assumes "0 < track" and "track_type data = Inr ''AUDIO''"
    and "emit_group a track data so = Inr (ls, so')"
  shows "\<exists>fstart len ts x y.
      get_track_file data = Inr (Some [fstart, len])
    \<and> offset_sum (if fstart = ''0'' then ''00:00:00'' else fstart) so = Inr ts
    \<and> to_fracs (if fstart = ''0'' then ''00:00:00'' else fstart) = Inr x
    \<and> to_fracs so = Inr y \<and> to_fracs ts = Inr (x + y)
    \<and> (\<forall>st. get_start data = Inr (Some st) \<and> st \<noteq> [] \<longrightarrow>
          (\<exists>t1 z. offset_sum ts st = Inr t1 \<and> to_fracs st = Inr z
             \<and> to_fracs t1 = Inr (x + y + z)
             \<and> filter is_index ls = [''    INDEX 00 '' @ ts, ''    INDEX 01 '' @ t1]))
    \<and> (get_start data = Inr None \<longrightarrow> filter is_index ls = [''    INDEX 01 '' @ ts])"
proof -
  from emit_group_track [OF assms(3) assms(1)] assms(2)
  have "emit_audio track data so = Inr (ls, so')" by auto
  from emit_audio_index [OF this] obtain fstart len ts start l4 where
    tf: "get_track_file data = Inr (Some [fstart, len])" and
    ts: "offset_sum (if fstart = ''0'' then ''00:00:00'' else fstart) so = Inr ts" and
    st: "get_start data = Inr start" and l4: "index_lines ts start = Inr l4" and
    f: "filter is_index ls = l4"
    by blast
  from offset_sum_frames [OF ts] obtain x y where
    x: "to_fracs (if fstart = ''0'' then ''00:00:00'' else fstart) = Inr x" and
    y: "to_fracs so = Inr y" and xy: "to_fracs ts = Inr (x + y)"
    by blast
  have p: "\<exists>t1 z. offset_sum ts s = Inr t1 \<and> to_fracs s = Inr z
             \<and> to_fracs t1 = Inr (x + y + z)
             \<and> filter is_index ls = [''    INDEX 00 '' @ ts, ''    INDEX 01 '' @ t1]"
    if "get_start data = Inr (Some s) \<and> s \<noteq> []" for s
  proof -
    from that st have s: "start = Some s" "s \<noteq> []" by simp_all
    with index_lines_Inr [OF l4] obtain t1 where
      t1: "offset_sum ts s = Inr t1" and
      l: "l4 = [''    INDEX 00 '' @ ts, ''    INDEX 01 '' @ t1]"
      by auto
    from offset_sum_frames [OF t1] xy obtain z where
      "to_fracs s = Inr z" "to_fracs t1 = Inr (x + y + z)" by auto
    with t1 l f show ?thesis by blast
  qed
  have q: "filter is_index ls = [''    INDEX 01 '' @ ts]" if "get_start data = Inr None"
  proof -
    from that st have "start = None" by simp
    with index_lines_Inr [OF l4] f show ?thesis by auto
  qed
  from tf ts x y xy p q show ?thesis by blast
qed

theorem audio_group_index_lines_witness:
  \<open>track_type [[''TRACK'', ''AUDIO''], [''FILE'', ''"data.wav"'', ''0'', ''00:03:00''],
                [''START'', ''00:02:00'']] = Inr ''AUDIO''
   \<and> emit_group True 1 [[''TRACK'', ''AUDIO''], [''FILE'', ''"data.wav"'', ''0'', ''00:03:00''],
                [''START'', ''00:02:00'']] ''00:00:10''
       = Inr ([''  TRACK 01 AUDIO'', ''    INDEX 00 00:00:10'', ''    INDEX 01 00:02:10''], ''00:00:10'')
   \<and> filter is_index [''  TRACK 01 AUDIO'', ''    INDEX 00 00:00:10'', ''    INDEX 01 00:02:10'']
       = [''    INDEX 00 '' @ ''00:00:10'', ''    INDEX 01 '' @ ''00:02:10'']\<close>
proof -
  let ?data = \<open>[[''TRACK'', ''AUDIO''], [''FILE'', ''"data.wav"'', ''0'', ''00:03:00''],
                [''START'', ''00:02:00'']]\<close>
  let ?ls = "[''  TRACK 01 AUDIO'', ''    INDEX 00 00:00:10'', ''    INDEX 01 00:02:10'']"
  have t: "track_type ?data = Inr ''AUDIO''" by (simp add: track_type_def)
  have e: "emit_group True 1 ?data ''00:00:10'' = Inr (?ls, ''00:00:10'')" by code_simp
  have tf: "get_track_file ?data = Inr (Some [''0'', ''00:03:00''])" by code_simp
  have st: "get_start ?data = Inr (Some ''00:02:00'')" by code_simp
  have o1: "offset_sum ''00:00:00'' ''00:00:10'' = Inr ''00:00:10''" by code_simp
  have o2: "offset_sum ''00:00:10'' ''00:02:00'' = Inr ''00:02:10''" by code_simp
  have n: "(0::nat) < 1" by simp
  from audio_group_index_lines [OF n t e] obtain fstart len ts x y where
    a: "get_track_file ?data = Inr (Some [fstart, len])" and
    b: "offset_sum (if fstart = ''0'' then ''00:00:00'' else fstart) ''00:00:10'' = Inr ts" and
    c: "\<forall>st. get_start ?data = Inr (Some st) \<and> st \<noteq> [] \<longrightarrow>
          (\<exists>t1 z. offset_sum ts st = Inr t1 \<and> to_fracs st = Inr z
             \<and> to_fracs t1 = Inr (x + y + z)
             \<and> filter is_index ?ls = [''    INDEX 00 '' @ ts, ''    INDEX 01 '' @ t1])"
    by (elim exE conjE)
  from a tf have "fstart = ''0''" by simp
  with b o1 have ts: "ts = ''00:00:10''" by simp
  have h: "get_start ?data = Inr (Some ''00:02:00'') \<and> ''00:02:00'' \<noteq> []"
    using st by simp
  have "\<exists>t1 z. offset_sum ts ''00:02:00'' = Inr t1 \<and> to_fracs ''00:02:00'' = Inr z
             \<and> to_fracs t1 = Inr (x + y + z)
             \<and> filter is_index ?ls = [''    INDEX 00 '' @ ts, ''    INDEX 01 '' @ t1]"
    by (rule mp [OF spec [OF c] h])
  then obtain t1 where "offset_sum ts ''00:02:00'' = Inr t1"
    and f: "filter is_index ?ls = [''    INDEX 00 '' @ ts, ''    INDEX 01 '' @ t1]"
    by (elim exE conjE)
  with o2 ts have "t1 = ''00:02:10''" by simp
  with f ts have "filter is_index ?ls = [''    INDEX 00 '' @ ''00:00:10'', ''    INDEX 01 '' @ ''00:02:10'']"
    by (simp only:)
  with t e show ?thesis by (intro conjI)
qed

lemma only_matching_word_nonempty:
  "only_matching_word data key p m = Inr r \<Longrightarrow> [] \<notin> set data"
  by (auto simp: only_matching_word_def split: if_splits)

lemma only_matching_word_filter:
  assumes "[] \<notin> set data" and "key \<noteq> k"
  shows "only_matching_word (filter (\<lambda>r. hd r \<noteq> k) data) key p m
       = only_matching_word data key p m"
proof -
  from assms(2) have "(\<lambda>x. hd x \<noteq> k \<and> hd x = key) = (\<lambda>x. hd x = key)" by auto
  then have "filter (\<lambda>x. hd x = key) (filter (\<lambda>r. hd r \<noteq> k) data)
      = filter (\<lambda>x. hd x = key) data"
    by (simp only: filter_filter)
  moreover from assms(1) have "[] \<notin> set (filter (\<lambda>r. hd r \<noteq> k) data)" by simp
  ultimately show ?thesis using assms(1) by (simp only: only_matching_word_def)
qed

lemma only_matching_word_removed:
  assumes "[] \<notin> set data"
  shows "only_matching_word (filter (\<lambda>r. hd r \<noteq> k) data) k p True = Inr None"
proof -
  have "filter (\<lambda>x. hd x = k) (filter (\<lambda>r. hd r \<noteq> k) data) = []"
    by (simp add: filter_empty_conv)
  moreover from assms have "[] \<notin> set (filter (\<lambda>r. hd r \<noteq> k) data)" by simp
  ultimately show ?thesis by (simp add: only_matching_word_def)
qed

lemma has_copy_filter:
  "has_copy (filter (\<lambda>r. hd r \<noteq> ''SILENCE'') data) = has_copy data"
  by (auto simp: has_copy_def list_ex_iff)

lemma track_type_filter:
  assumes "track_type data = Inr ty"
  shows "track_type (filter (\<lambda>r. hd r \<noteq> ''SILENCE'') data) = Inr ty"
proof -
  from assms obtain rest ws where "data = (''TRACK'' # ty # ws) # rest"
    by (auto simp: track_type_def split: list.splits if_splits)
  then show ?thesis by (simp add: track_type_def)
qed

lemma emit_audio_intro:
  assumes "get_isrc data = Inr isrc" and "get_track_file data = Inr (Some [ts0, len])"
    and "offset_sum (if ts0 = ''0'' then ''00:00:00'' else ts0) so = Inr ts"
    and "get_start data = Inr start" and "index_lines ts start = Inr l4"
    and "get_silence data = Inr silence"
    and "case silence of None \<Rightarrow> so' = so | Some s \<Rightarrow> offset_sum so s = Inr so'"
  shows "emit_audio track data so
       = Inr ([''  TRACK '' @ fmt02d (int track) @ '' AUDIO'']
           @ (if has_copy data then [''    FLAGS DCP''] else [])
           @ (case isrc of None \<Rightarrow> [] | Some i \<Rightarrow> [''    ISRC '' @ i]) @ l4, so')"
  using assms by (cases silence; cases isrc) (simp_all add: emit_audio_def Let_def)

text \<open>
  C10. For an audio group at any position after the header that carries a
  \<^verbatim>\<open>SILENCE\<close> field, whenever the loop body succeeds: the new silence offset is the
  old one plus the \<^verbatim>\<open>SILENCE\<close> duration, it is the offset the rest of the loop
  runs with, and the lines of the group itself are those of the same group without its
  \<^verbatim>\<open>SILENCE\<close> record, which leaves the offset as it was.
\<close>

theorem silence_shifts_later_tracks:
  assumes "0 < track" and "track_type data = Inr ''AUDIO''"
    and "emit_group a track data so = Inr (ls, so')"
    and "get_silence data = Inr (Some sil)"
  shows "offset_sum so sil = Inr so'
       \<and> (\<exists>x y. to_fracs so = Inr x \<and> to_fracs sil = Inr y \<and> to_fracs so' = Inr (x + y))
       \<and> emit_group a track (filter (\<lambda>r. hd r \<noteq> ''SILENCE'') data) so = Inr (ls, so)
       \<and> emit_groups a track (data # rest) so
           = ebind (emit_groups a (Suc track) rest so') (\<lambda>ls'. Inr (ls @ ls'))"
proof -
  let ?d = "filter (\<lambda>r. hd r \<noteq> ''SILENCE'') data"
  from emit_group_track [OF assms(3) assms(1)] assms(2)
  have ea: "emit_audio track data so = Inr (ls, so')" by auto
  from emit_audio_Inr [OF ea] assms(4) obtain isrc ts0 len ts start l4 where
    i: "get_isrc data = Inr isrc" and tf: "get_track_file data = Inr (Some [ts0, len])" and
    ts: "offset_sum (if ts0 = ''0'' then ''00:00:00'' else ts0) so = Inr ts" and
    st: "get_start data = Inr start" and l4: "index_lines ts start = Inr l4" and
    ls: "ls = [''  TRACK '' @ fmt02d (int track) @ '' AUDIO'']
           @ (if has_copy data then [''    FLAGS DCP''] else [])
           @ (case isrc of None \<Rightarrow> [] | Some i \<Rightarrow> [''    ISRC '' @ i]) @ l4" and
    so': "offset_sum so sil = Inr so'"
    by auto
  from i have ne: "[] \<notin> set data"
    unfolding get_isrc_def by (rule only_matching_word_nonempty)
  have i': "get_isrc ?d = Inr isrc"
    using i ne by (simp add: get_isrc_def only_matching_word_filter)
  have tf': "get_track_file ?d = Inr (Some [ts0, len])"
    using tf ne by (simp add: get_track_file_def only_matching_word_filter)
  have st': "get_start ?d = Inr start"
    using st ne by (simp add: get_start_def only_matching_word_filter)
  have si': "get_silence ?d = Inr None"
    using ne by (simp add: get_silence_def only_matching_word_removed)
  have "emit_audio track ?d so
       = Inr ([''  TRACK '' @ fmt02d (int track) @ '' AUDIO'']
           @ (if has_copy ?d then [''    FLAGS DCP''] else [])
           @ (case isrc of None \<Rightarrow> [] | Some i \<Rightarrow> [''    ISRC '' @ i]) @ l4, so)"
    by (rule emit_audio_intro [OF i' tf' ts st' l4 si']) simp
  then have "emit_audio track ?d so = Inr (ls, so)"
    by (simp only: ls has_copy_filter)
  with assms(1) track_type_filter [OF assms(2)]
  have g: "emit_group a track ?d so = Inr (ls, so)"
    by (simp add: emit_group_def)
  from assms(3) have l: "emit_groups a track (data # rest) so
           = ebind (emit_groups a (Suc track) rest so') (\<lambda>ls'. Inr (ls @ ls'))"
    by simp
  from offset_sum_frames [OF so'] so' g l show ?thesis by blast
qed

theorem silence_shifts_later_tracks_witness:
  \<open>get_silence [[''TRACK'', ''AUDIO''], [''FILE'', ''"data.wav"'', ''00:03:00'', ''00:04:00''],
                 [''SILENCE'', ''00:00:10'']] = Inr (Some ''00:00:10'')
   \<and> emit_group True 2 [[''TRACK'', ''AUDIO''], [''FILE'', ''"data.wav"'', ''00:03:00'', ''00:04:00''],
                 [''SILENCE'', ''00:00:10'']] ''00:00:05''
       = Inr ([''  TRACK 02 AUDIO'', ''    INDEX 01 00:03:05''], ''00:00:15'')
   \<and> offset_sum ''00:00:05'' ''00:00:10'' = Inr ''00:00:15''
   \<and> emit_group True 2 (filter (\<lambda>r. hd r \<noteq> ''SILENCE'')
          [[''TRACK'', ''AUDIO''], [''FILE'', ''"data.wav"'', ''00:03:00'', ''00:04:00''],
           [''SILENCE'', ''00:00:10'']]) ''00:00:05''
       = Inr ([''  TRACK 02 AUDIO'', ''    INDEX 01 00:03:05''], ''00:00:05'')\<close>
proof -
  let ?data = \<open>[[''TRACK'', ''AUDIO''], [''FILE'', ''"data.wav"'', ''00:03:00'', ''00:04:00''],
                 [''SILENCE'', ''00:00:10'']]\<close>
  have n: "(0::nat) < 2" by simp
  have t: "track_type ?data = Inr ''AUDIO''" by (simp add: track_type_def)
  have e: "emit_group True 2 ?data ''00:00:05''
      = Inr ([''  TRACK 02 AUDIO'', ''    INDEX 01 00:03:05''], ''00:00:15'')" by code_simp
  have s: "get_silence ?data = Inr (Some ''00:00:10'')" by code_simp
  note th = silence_shifts_later_tracks [OF n t e s, of "[]"]
  from th [THEN conjunct1] th [THEN conjunct2, THEN conjunct2, THEN conjunct1] s e
  show ?thesis by (intro conjI)
qed

text \<open>
  Every group of a successful conversion is handled by the loop body at its position, and
  the lines of the body are a segment of the output; so what is proved of the loop body
  holds of every group of the conversion.
\<close>

lemma emit_groups_step:
  "emit_groups a track (pre @ data # post) so = Inr out \<Longrightarrow>
   \<exists>so1 so2 l_pre l l_post.
     emit_group a (track + length pre) data so1 = Inr (l, so2) \<and> out = l_pre @ l @ l_post"
proof (induction pre arbitrary: track so out)
  case Nil
  then obtain l so2 l_post where "emit_group a track data so = Inr (l, so2)" "out = l @ l_post"
    by (auto simp: ebind_eq_Inr)
  then have "emit_group a (track + length []) data so = Inr (l, so2) \<and> out = [] @ l @ l_post"
    by simp
  then show ?case by blast
next
  case (Cons d pre)
  from Cons.prems obtain l0 so0 out' where
    "emit_group a track d so = Inr (l0, so0)" and
    r: "emit_groups a (Suc track) (pre @ data # post) so0 = Inr out'" and o: "out = l0 @ out'"
    by (auto simp: ebind_eq_Inr)
  from Cons.IH [OF r] obtain so1 so2 l_pre l l_post where
    "emit_group a (Suc track + length pre) data so1 = Inr (l, so2)" "out' = l_pre @ l @ l_post"
    by blast
  with o have "emit_group a (track + length (d # pre)) data so1 = Inr (l, so2)
      \<and> out = (l0 @ l_pre) @ l @ l_post" by simp
  then show ?case by blast
qed

lemma cuesheet_lines_group:
  assumes "cuesheet_lines parts = Inr ls"
    and "n < length (split_by_track parts)"
  shows "\<exists>a so so' l l_pre l_post.
     emit_group a n (map py_split (split_by_track parts ! n)) so = Inr (l, so')
     \<and> ls = l_pre @ l @ l_post"
proof -
  let ?tracks = "map (map py_split) (split_by_track parts)"
  from assms(1) obtain a ls0 where
    g: "emit_groups a 0 ?tracks ''00:00:00'' = Inr ls0" and l0: "ls = ls0 @ [[]]"
    by (auto simp: cuesheet_lines_def Let_def ebind_eq_Inr split: if_splits)
  from assms(2) have n: "n < length ?tracks" by simp
  then have t: "?tracks = take n ?tracks @ (?tracks ! n) # drop (Suc n) ?tracks"
    by (rule id_take_nth_drop)
  from g have "emit_groups a 0 (take n ?tracks @ (?tracks ! n) # drop (Suc n) ?tracks) ''00:00:00''
      = Inr ls0" using t by simp
  from emit_groups_step [OF this] n obtain so1 so2 l_pre l l_post where
    "emit_group a n (?tracks ! n) so1 = Inr (l, so2)" "ls0 = l_pre @ l @ l_post"
    by auto
  with l0 n assms(2) have "emit_group a n (map py_split (split_by_track parts ! n)) so1 = Inr (l, so2)
      \<and> ls = l_pre @ l @ (l_post @ [[]])" by simp
  then show ?thesis by blast
qed

text \<open>
  C8. A \<^verbatim>\<open>MODE1\<close> group at position \<open>track\<close> (not the group at position 0, which
  is the disc header) appends \<^verbatim>\<open>TRACK NN MODE1/2048\<close> and
  \<^verbatim>\<open>INDEX 01 00:00:00\<close>, whatever the silence offset and the other records of
  the group are, and leaves the silence offset as it is.
\<close>

theorem mode1_group_output:
  assumes "track_type data = Inr ''MODE1''" and "0 < track"
  shows "emit_group a track data silence_offset =
           Inr ([''  TRACK '' @ fmt02d (int track) @ '' MODE1/2048'', ''    INDEX 01 00:00:00''],
                silence_offset)"
  using assms by (simp add: emit_group_def)

theorem mode1_group_output_witness:
  "track_type [[''TRACK'', ''MODE1''], [''START'', ''00:01:00'']] = Inr ''MODE1'' \<and> (0::nat) < 2
   \<and> emit_group True 2 [[''TRACK'', ''MODE1''], [''START'', ''00:01:00'']] ''00:00:10''
       = Inr ([''  TRACK 02 MODE1/2048'', ''    INDEX 01 00:00:00''], ''00:00:10'')"
proof -
  have t: "track_type [[''TRACK'', ''MODE1''], [''START'', ''00:01:00'']] = Inr ''MODE1''"
    by (simp add: track_type_def)
  have f: "fmt02d (int 2) = ''02''" by code_simp
  from mode1_group_output [OF t, of 2 True "''00:00:10''"] t f show ?thesis by simp
qed

text \<open>
  C9. When the records split into fewer than two groups, \<^verbatim>\<open>tracks[1]\<close> raises
  \<open>IndexError\<close> and so does the conversion; records without any \<^verbatim>\<open>TRACK\<close> record
  split into fewer than two groups.
\<close>

theorem fewer_than_two_groups_fails:
  assumes "read_cdrdao_toc file_lines = Inr parts"
  shows "(length (split_by_track parts) < 2 \<longrightarrow>
            make_cuesheet parts = Inl IndexError \<and> toc_to_cuesheet file_lines = Inl IndexError)
       \<and> ((\<forall>p\<in>set parts. \<not> startswith p ''TRACK '') \<longrightarrow> length (split_by_track parts) < 2)"
  using assms
  by (simp add: toc_to_cuesheet_def make_cuesheet_def cuesheet_lines_def split_by_track_def
      split_loop_no_track)

theorem fewer_than_two_groups_fails_witness:
  "read_cdrdao_toc [''CD_DA'', ''CATALOG 1''] = Inr [''CD_DA'', ''CATALOG 1'']
   \<and> length (split_by_track [''CD_DA'', ''CATALOG 1'']) < 2
   \<and> toc_to_cuesheet [''CD_DA'', ''CATALOG 1''] = Inl IndexError"
proof -
  have r: "read_cdrdao_toc [''CD_DA'', ''CATALOG 1''] = Inr [''CD_DA'', ''CATALOG 1'']"
    by code_simp
  have n: "\<forall>p\<in>set [''CD_DA'', ''CATALOG 1'']. \<not> startswith p ''TRACK ''"
    by (simp add: startswith_def)
  from fewer_than_two_groups_fails [OF r] r n show ?thesis by blast
qed

end
